theory Spec2Isabelle
  imports Main "HOL-Library.Signed_Division"
begin

unbundle bit_operations_syntax

section \<open>C integers of rsa\_algorithm.c\<close>

text \<open>
  The RSA program computes on C \<open>int\<close> (32 bits) and \<open>long long\<close> (64 bits). A value
  is an \<open>int\<close> of HOL together with the range of its C type; an operation whose
  mathematical result leaves that range is undefined behaviour in C and is a fault of
  the model, as is a division or remainder by zero. \<open>/\<close> and \<open>%\<close> truncate towards
  zero (\<open>sdiv\<close>, \<open>smod\<close>).
\<close>

datatype fault = DivideByZero | SignedOverflow

definition INT_MAX :: int where
  "INT_MAX = 2147483647"

definition INT_MIN :: int where
  "INT_MIN = - 2147483648"

definition LLONG_MAX :: int where
  "LLONG_MAX = 9223372036854775807"

definition LLONG_MIN :: int where
  "LLONG_MIN = - 9223372036854775808"

definition in_int :: "int \<Rightarrow> bool" where
  "in_int v \<longleftrightarrow> INT_MIN \<le> v \<and> v \<le> INT_MAX"

definition in_llong :: "int \<Rightarrow> bool" where
  "in_llong v \<longleftrightarrow> LLONG_MIN \<le> v \<and> v \<le> LLONG_MAX"

definition int_mul :: "int \<Rightarrow> int \<Rightarrow> fault + int" where
  "int_mul a b = (if in_int (a * b) then Inr (a * b) else Inl SignedOverflow)"

definition int_sub :: "int \<Rightarrow> int \<Rightarrow> fault + int" where
  "int_sub a b = (if in_int (a - b) then Inr (a - b) else Inl SignedOverflow)"

definition int_div :: "int \<Rightarrow> int \<Rightarrow> fault + int" where
  "int_div a b =
     (if b = 0 then Inl DivideByZero
      else if in_int (a sdiv b) then Inr (a sdiv b) else Inl SignedOverflow)"

definition int_mod :: "int \<Rightarrow> int \<Rightarrow> fault + int" where
  "int_mod a b =
     (if b = 0 then Inl DivideByZero
      else if in_int (a sdiv b) then Inr (a smod b) else Inl SignedOverflow)"

definition ll_mul :: "int \<Rightarrow> int \<Rightarrow> fault + int" where
  "ll_mul a b = (if in_llong (a * b) then Inr (a * b) else Inl SignedOverflow)"

definition ll_mod :: "int \<Rightarrow> int \<Rightarrow> fault + int" where
  "ll_mod a b =
     (if b = 0 then Inl DivideByZero
      else if in_llong (a sdiv b) then Inr (a smod b) else Inl SignedOverflow)"

text \<open>The conversion of a \<open>long long\<close> to \<open>int\<close> at \<open>return res\<close> keeps the low 32 bits.\<close>

definition narrow_int :: "int \<Rightarrow> int" where
  "narrow_int v = signed_take_bit 31 v"

section \<open>rsa\_algorithm.c\<close>

text \<open>
  \<open>gcdExtended\<close> writes its coefficients through the pointers \<open>x\<close> and \<open>y\<close>; the model
  returns them beside the gcd, as \<open>(gcd, x, y)\<close>.
\<close>

function gcdExtended :: "int \<Rightarrow> int \<Rightarrow> fault + (int \<times> int \<times> int)" where
  "gcdExtended a b =
     (if a = 0 then Inr (b, 0, 1)
      else case int_mod b a of
        Inl f \<Rightarrow> Inl f
      | Inr r \<Rightarrow>
         (case gcdExtended r a of
            Inl f \<Rightarrow> Inl f
          | Inr (g, x1, y1) \<Rightarrow>
             (case int_div b a of
                Inl f \<Rightarrow> Inl f
              | Inr q \<Rightarrow>
                 (case int_mul q x1 of
                    Inl f \<Rightarrow> Inl f
                  | Inr t \<Rightarrow>
                     (case int_sub y1 t of
                        Inl f \<Rightarrow> Inl f
                      | Inr x \<Rightarrow> Inr (g, x, x1))))))"
  by pat_completeness auto
termination
proof (relation "measure (\<lambda>(a, b). nat \<bar>a\<bar>)")
  show "wf (measure (\<lambda>(a, b). nat \<bar>a\<bar>))"
    by simp
next
  fix a b r :: int
  assume "a \<noteq> 0" and "int_mod b a = Inr r"
  then have "r = b smod a"
    by (simp add: int_mod_def split: if_splits)
  moreover have "\<bar>b smod a\<bar> < \<bar>a\<bar>"
    using smod_int_range [where a = b and b = a] \<open>a \<noteq> 0\<close> by auto
  ultimately show "((r, a), (a, b)) \<in> measure (\<lambda>(a, b). nat \<bar>a\<bar>)"
    by simp
qed

declare gcdExtended.simps [simp del]

definition findGCD :: "int \<Rightarrow> int \<Rightarrow> fault + int" where
  "findGCD a b = (case gcdExtended a b of Inl f \<Rightarrow> Inl f | Inr (g, x, y) \<Rightarrow> Inr g)"

function modInverse_loop :: "int \<Rightarrow> int \<Rightarrow> int \<Rightarrow> fault + int" where
  "modInverse_loop e totient d =
     (if d < totient then
        (case int_mul e d of
           Inl f \<Rightarrow> Inl f
         | Inr t \<Rightarrow>
            (case int_mod t totient of
               Inl f \<Rightarrow> Inl f
             | Inr r \<Rightarrow> if r = 1 then Inr d else modInverse_loop e totient (d + 1)))
      else Inr (- 1))"
  by pat_completeness auto
termination
  by (relation "measure (\<lambda>(e, totient, d). nat (totient - d))") auto

declare modInverse_loop.simps [simp del]

definition modInverse :: "int \<Rightarrow> int \<Rightarrow> fault + int" where
  "modInverse e totient = modInverse_loop e totient 2"

text \<open>
  The loop of \<open>power\<close> on the \<open>long long\<close> variables \<open>res\<close> and \<open>b\<close> and the \<open>int\<close>
  variable \<open>expo\<close>; it yields \<open>res\<close> as the loop leaves it.
\<close>

function power_loop :: "int \<Rightarrow> int \<Rightarrow> int \<Rightarrow> int \<Rightarrow> fault + int" where
  "power_loop res b expo m =
     (if expo > 0 then
        (case (if expo AND 1 \<noteq> 0
               then (case ll_mul res b of Inl f \<Rightarrow> Inl f | Inr t \<Rightarrow> ll_mod t m)
               else Inr res) of
           Inl f \<Rightarrow> Inl f
         | Inr res' \<Rightarrow>
            (case ll_mul b b of
               Inl f \<Rightarrow> Inl f
             | Inr t \<Rightarrow>
                (case ll_mod t m of
                   Inl f \<Rightarrow> Inl f
                 | Inr b' \<Rightarrow> power_loop res' b' (expo sdiv 2) m)))
      else Inr res)"
  by pat_completeness auto
termination
proof (relation "measure (\<lambda>(res, b, expo, m). nat expo)")
  show "wf (measure (\<lambda>(res, b, expo, m). nat expo))"
    by simp
next
  fix res b expo m x2 x2a x2b :: int
  assume "0 < expo"
  then have "expo sdiv 2 < expo"
    by (simp add: signed_divide_int_def sgn_if)
  with \<open>0 < expo\<close> show "((x2, x2b, expo sdiv 2, m), (res, b, expo, m))
      \<in> measure (\<lambda>(res, b, expo, m). nat expo)"
    by simp
qed

declare power_loop.simps [simp del]

definition power :: "int \<Rightarrow> int \<Rightarrow> int \<Rightarrow> fault + int" where
  "power base expo m =
     (case int_mod base m of
        Inl f \<Rightarrow> Inl f
      | Inr b \<Rightarrow>
         (case power_loop 1 b expo m of
            Inl f \<Rightarrow> Inl f
          | Inr res \<Rightarrow> Inr (narrow_int res)))"

definition encrypt :: "int \<Rightarrow> int \<Rightarrow> int \<Rightarrow> fault + int" where
  "encrypt m e n = power m e n"

definition decrypt :: "int \<Rightarrow> int \<Rightarrow> int \<Rightarrow> fault + int" where
  "decrypt c d n = power c d n"

section \<open>The GMP operations used by diffie-hellman.c\<close>

text \<open>
  An \<open>mpz_t\<close> holds an integer of any size: an \<open>int\<close> of HOL. The \<open>unsigned long\<close>
  counters of the program (trial divisors, generator candidates, private exponents) are
  handed to GMP as they are produced; they are natural numbers here, not bounded by
  \<open>ULONG_MAX\<close>. The operations follow the GMP manual; where the manual raises a division
  by zero or leaves the result unspecified the model returns \<open>None\<close>.
\<close>

definition mpz_divisible_ui_p :: "int \<Rightarrow> nat \<Rightarrow> bool" where
  "mpz_divisible_ui_p n d \<longleftrightarrow> int d dvd n"

definition mpz_divexact :: "int \<Rightarrow> int \<Rightarrow> int option" where
  "mpz_divexact n d = (if d \<noteq> 0 \<and> d dvd n then Some (n div d) else None)"

definition mpz_divexact_ui :: "int \<Rightarrow> nat \<Rightarrow> int option" where
  "mpz_divexact_ui n d = mpz_divexact n (int d)"

text \<open>
  \<open>mpz_invert\<close>: the inverse of \<open>b\<close> modulo \<open>m\<close> in \<open>[0, |m|)\<close>, if there is one.
\<close>

definition mpz_invert :: "int \<Rightarrow> int \<Rightarrow> int option" where
  "mpz_invert b m =
     (if m = 0 then None
      else map_option int
        (find (\<lambda>x. (b * int x) mod \<bar>m\<bar> = 1 mod \<bar>m\<bar>) [0 ..< nat \<bar>m\<bar>]))"

text \<open>
  \<open>mpz_powm\<close>: \<open>base ^ exp mod |m|\<close>; a negative exponent goes through the inverse of
  the base, and a zero modulus or a missing inverse is a division by zero.
\<close>

definition mpz_powm :: "int \<Rightarrow> int \<Rightarrow> int \<Rightarrow> int option" where
  "mpz_powm b e m =
     (if m = 0 then None
      else if 0 \<le> e then Some (b ^ nat e mod \<bar>m\<bar>)
      else map_option (\<lambda>i. i ^ nat (- e) mod \<bar>m\<bar>) (mpz_invert b m))"

section \<open>diffie-hellman.c\<close>

text \<open>\<open>while (mpz_divisible_ui_p(n, i)) mpz_divexact_ui(n, n, i);\<close>\<close>

partial_function (option) divide_out :: "int \<Rightarrow> nat \<Rightarrow> int option" where
  "divide_out n i =
     (if mpz_divisible_ui_p n i
      then (case mpz_divexact_ui n i of None \<Rightarrow> None | Some n' \<Rightarrow> divide_out n' i)
      else Some n)"

declare divide_out.simps [code]

text \<open>
  The step that \<open>factor_distinct\<close> takes for the divisor 2 and for every odd \<open>i\<close>:
  \<open>if (mpz_divisible_ui_p(n, i)) { mpz_init_set_ui(factors[(*k)++], i); while ... }\<close>.
  The state is the rest of \<open>n\<close> and the factors found so far (\<open>factors[0 .. k-1]\<close>).
\<close>

definition take_factor :: "nat \<Rightarrow> int \<Rightarrow> int list \<Rightarrow> (int \<times> int list) option" where
  "take_factor i n factors =
     (if mpz_divisible_ui_p n i
      then (case divide_out n i of
              None \<Rightarrow> None
            | Some n' \<Rightarrow> Some (n', factors @ [int i]))
      else Some (n, factors))"

text \<open>
  The odd trial division, \<open>for (i = 3; mpz_cmp_ui(n, 1) > 0; i += 2)\<close>, from the
  divisor \<open>i\<close> on; it ends when \<open>n\<close> has become 1 or \<open>i * i > n\<close>.
\<close>

partial_function (option) odd_trial :: "nat \<Rightarrow> int \<Rightarrow> int list \<Rightarrow> (int \<times> int list) option" where
  "odd_trial i n factors =
     (if n > 1 then
        (case take_factor i n factors of
           None \<Rightarrow> None
         | Some (n', factors') \<Rightarrow>
             if int i * int i > n' then Some (n', factors')
             else odd_trial (i + 2) n' factors')
      else Some (n, factors))"

declare odd_trial.simps [code]

text \<open>
  \<open>factor_distinct\<close> divides the \<open>mpz_t\<close> it is given in place (the caller passes a
  copy of \<open>P - 1\<close>) and fills \<open>factors\<close>; the model returns the factors, in the order
  in which they are stored. A rest \<open>> 1\<close> after the loop is stored last.
\<close>

definition factor_distinct :: "int \<Rightarrow> int list option" where
  "factor_distinct n =
     (case take_factor 2 n [] of
        None \<Rightarrow> None
      | Some (n1, factors1) \<Rightarrow>
         (case odd_trial 3 n1 factors1 of
            None \<Rightarrow> None
          | Some (n2, factors2) \<Rightarrow>
              Some (if n2 > 1 then factors2 @ [n2] else factors2)))"

text \<open>
  The loop of \<open>is_generator\<close> over \<open>factors[i]\<close>, \<open>i < k\<close>; the C result 1 is \<open>True\<close>
  and 0 is \<open>False\<close>.
\<close>

fun is_generator_loop :: "int \<Rightarrow> int \<Rightarrow> int \<Rightarrow> int list \<Rightarrow> bool option" where
  "is_generator_loop g p p_minus_1 [] = Some True"
| "is_generator_loop g p p_minus_1 (f # factors) =
     (case mpz_divexact p_minus_1 f of
        None \<Rightarrow> None
      | Some exp \<Rightarrow>
         (case mpz_powm g exp p of
            None \<Rightarrow> None
          | Some t \<Rightarrow> if t = 1 then Some False else is_generator_loop g p p_minus_1 factors))"

definition is_generator :: "int \<Rightarrow> int \<Rightarrow> int list \<Rightarrow> bool option" where
  "is_generator g p factors = is_generator_loop g p (p - 1) factors"

definition is_generator_safe_prime :: "int \<Rightarrow> int \<Rightarrow> int \<Rightarrow> bool option" where
  "is_generator_safe_prime g P r =
     (let Pm1 = P - 1 in
      case mpz_divexact_ui Pm1 2 of
        None \<Rightarrow> None
      | Some exp \<Rightarrow>
         (case mpz_powm g exp P of
            None \<Rightarrow> None
          | Some t \<Rightarrow>
             if t = 1 then Some False
             else (case mpz_divexact Pm1 r of
                     None \<Rightarrow> None
                   | Some exp' \<Rightarrow>
                      (case mpz_powm g exp' P of
                         None \<Rightarrow> None
                       | Some t' \<Rightarrow> if t' = 1 then Some False else Some True))))"

text \<open>
  The generator searches of the two \<open>main\<close> functions,
  \<open>for (cand = start;; ++cand) { mpz_set_ui(alpha, cand); if (...) break; }\<close>:
  the result is \<open>alpha\<close>. The loops have no bound.
\<close>

partial_function (option) find_generator :: "int \<Rightarrow> int list \<Rightarrow> nat \<Rightarrow> int option" where
  "find_generator P factors cand =
     (case is_generator (int cand) P factors of
        None \<Rightarrow> None
      | Some ok \<Rightarrow> if ok then Some (int cand) else find_generator P factors (cand + 1))"

declare find_generator.simps [code]

partial_function (option) find_generator_safe_prime :: "int \<Rightarrow> int \<Rightarrow> nat \<Rightarrow> int option" where
  "find_generator_safe_prime P r cand =
     (case is_generator_safe_prime (int cand) P r of
        None \<Rightarrow> None
      | Some ok \<Rightarrow> if ok then Some (int cand) else find_generator_safe_prime P r (cand + 1))"

declare find_generator_safe_prime.simps [code]

text \<open>
  The four \<open>mpz_powm\<close> calls of the exchange, the same in both \<open>main\<close> functions: the
  public keys \<open>YA\<close>, \<open>YB\<close> and the shared keys \<open>SA\<close>, \<open>SB\<close>.
\<close>

record dh_keys =
  YA :: int
  YB :: int
  SA :: int
  SB :: int

definition dh_exchange :: "int \<Rightarrow> int \<Rightarrow> nat \<Rightarrow> nat \<Rightarrow> dh_keys option" where
  "dh_exchange P alpha XA XB =
     (case mpz_powm alpha (int XA) P of
        None \<Rightarrow> None
      | Some ya \<Rightarrow>
         (case mpz_powm alpha (int XB) P of
            None \<Rightarrow> None
          | Some yb \<Rightarrow>
             (case mpz_powm yb (int XA) P of
                None \<Rightarrow> None
              | Some sa \<Rightarrow>
                 (case mpz_powm ya (int XB) P of
                    None \<Rightarrow> None
                  | Some sb \<Rightarrow> Some \<lparr>YA = ya, YB = yb, SA = sa, SB = sb\<rparr>))))"

section \<open>Vocabulary of the specification\<close>

definition is_prime :: "int \<Rightarrow> bool" where
  "is_prime p \<longleftrightarrow> 1 < p \<and> (\<forall>d \<in> {2 ..< p}. \<not> d dvd p)"






section \<open>Facts about the C operations\<close>

lemma smod_nonneg_eq: "0 \<le> a \<Longrightarrow> 0 < b \<Longrightarrow> (a::int) smod b = a mod b"
  by (simp add: signed_modulo_int_def sgn_if)

lemma sdiv_nonneg_eq: "0 \<le> a \<Longrightarrow> 0 < b \<Longrightarrow> (a::int) sdiv b = a div b"
  by (simp add: signed_divide_int_def sgn_if)

lemma ll_mul_mod_small:
  assumes "0 \<le> a" "a \<le> m" "0 \<le> b" "b \<le> m" "0 < m" "m \<le> INT_MAX"
  shows "ll_mul a b = Inr (a * b)" and "ll_mod (a * b) m = Inr (a * b mod m)"
proof -
  have "a * b \<le> INT_MAX * INT_MAX"
    using assms by (intro mult_mono) (auto simp: INT_MAX_def)
  then have hi: "a * b \<le> LLONG_MAX"
    by (simp add: INT_MAX_def LLONG_MAX_def)
  have lo: "0 \<le> a * b"
    using assms by simp
  show "ll_mul a b = Inr (a * b)"
    using hi lo by (simp add: ll_mul_def in_llong_def LLONG_MIN_def)
  have "a * b div m \<le> a * b div 1"
    using lo \<open>0 < m\<close> by (intro zdiv_mono2) auto
  moreover have "0 \<le> a * b div m"
    using lo \<open>0 < m\<close> by (simp add: pos_imp_zdiv_nonneg_iff)
  ultimately show "ll_mod (a * b) m = Inr (a * b mod m)"
    using hi lo \<open>0 < m\<close>
    by (simp add: ll_mod_def in_llong_def LLONG_MIN_def smod_nonneg_eq sdiv_nonneg_eq)
qed

lemma power_loop_exact:
  "0 < m \<Longrightarrow> m \<le> INT_MAX \<Longrightarrow> 0 \<le> res \<Longrightarrow> res \<le> m \<Longrightarrow> 0 \<le> b \<Longrightarrow> b < m \<Longrightarrow>
    power_loop res b expo m = Inr (if 0 < expo then res * b ^ nat expo mod m else res)"
proof (induction res b expo m rule: power_loop.induct)
  case (1 res b expo m)
  show ?case
  proof (cases "0 < expo")
    case False
    then show ?thesis
      by (subst power_loop.simps) simp
  next
    case True
    define res' where "res' = (if odd expo then res * b mod m else res)"
    define b' where "b' = b * b mod m"
    define k where "k = nat (expo div 2)"
    have bit: "expo AND 1 \<noteq> 0 \<longleftrightarrow> odd expo"
      by (simp add: and_one_eq mod_2_eq_odd)
    have half: "expo sdiv 2 = expo div 2"
      using True by (simp add: sdiv_nonneg_eq)
    have "b \<le> m"
      using "1.prems" by simp
    have mulres: "ll_mul res b = Inr (res * b)" "ll_mod (res * b) m = Inr (res * b mod m)"
      by (rule ll_mul_mod_small [of res m b]; use "1.prems" in simp)+
    have mulb: "ll_mul b b = Inr (b * b)" "ll_mod (b * b) m = Inr b'"
      unfolding b'_def by (rule ll_mul_mod_small [of b m b]; use "1.prems" in simp)+
    have first: "(if expo AND 1 \<noteq> 0
               then (case ll_mul res b of Inl f \<Rightarrow> Inl f | Inr t \<Rightarrow> ll_mod t m)
               else Inr res) = Inr res'"
      by (simp add: bit mulres res'_def)
    have unfold: "power_loop res b expo m = power_loop res' b' (expo sdiv 2) m"
      by (subst power_loop.simps) (simp only: True first mulb if_True sum.case)
    have res'_range: "0 \<le> res'" "res' \<le> m"
      using "1.prems" by (auto simp: res'_def intro: less_imp_le)
    have b'_range: "0 \<le> b'" "b' < m"
      using "1.prems" by (simp_all add: b'_def)
    have IH: "power_loop res' b' (expo sdiv 2) m =
        Inr (if 0 < expo sdiv 2 then res' * b' ^ nat (expo sdiv 2) mod m else res')"
      using "1.IH" [OF True first mulb] "1.prems"(1,2) res'_range b'_range by simp
    have expo_eq: "nat expo = 2 * k + (if odd expo then 1 else 0)"
      using True by (auto simp: k_def elim!: oddE evenE) 
    have pow: "res' * b' ^ k mod m = res * b ^ nat expo mod m"
    proof -
      have "res' * b' ^ k mod m = (res' mod m) * (b' ^ k mod m) mod m"
        by (simp add: mod_mult_eq)
      also have "b' ^ k mod m = (b * b) ^ k mod m"
        by (simp add: b'_def power_mod)
      also have "res' mod m = (if odd expo then res * b else res) mod m"
        by (simp add: res'_def)
      also have "((if odd expo then res * b else res) mod m) * ((b * b) ^ k mod m) mod m
          = (if odd expo then res * b else res) * (b * b) ^ k mod m"
        by (simp add: mod_mult_eq)
      also have "(if odd expo then res * b else res) * (b * b) ^ k = res * b ^ nat expo"
        by (simp add: expo_eq power_add power_mult power2_eq_square [symmetric] power_mult_distrib
                 flip: power_mult)
      finally show ?thesis .
    qed
    show ?thesis
    proof (cases "0 < expo div 2")
      case True
      with IH unfold half pow \<open>0 < expo\<close> show ?thesis
        by (simp add: k_def)
    next
      case False
      with \<open>0 < expo\<close> have "expo = 1"
        by (simp add: pos_imp_zdiv_pos_iff)
      with IH unfold half show ?thesis
        by (simp add: res'_def)
    qed
  qed
qed

lemma narrow_int_small: "0 \<le> v \<Longrightarrow> v \<le> INT_MAX \<Longrightarrow> narrow_int v = v"
  by (simp add: narrow_int_def INT_MAX_def signed_take_bit_int_eq_self)

lemma div_nonneg_le_self: "0 \<le> a \<Longrightarrow> 0 < b \<Longrightarrow> (a::int) div b \<le> a"
  using zdiv_mono2 [of a 1 b] by simp

lemma int_div_mod_nonneg:
  assumes "0 \<le> b" "b \<le> INT_MAX" "0 < a"
  shows "int_div b a = Inr (b div a)" and "int_mod b a = Inr (b mod a)"
proof -
  have "0 \<le> b div a"
    using assms by (simp add: pos_imp_zdiv_nonneg_iff)
  moreover have "b div a \<le> INT_MAX"
    using div_nonneg_le_self [of b a] assms by simp
  ultimately have "in_int (b sdiv a)"
    using assms by (simp add: in_int_def INT_MIN_def sdiv_nonneg_eq)
  then show "int_div b a = Inr (b div a)" and "int_mod b a = Inr (b mod a)"
    using assms by (simp_all add: int_div_def int_mod_def sdiv_nonneg_eq smod_nonneg_eq)
qed

lemma int_mul_sub_small:
  assumes "\<bar>v\<bar> \<le> INT_MAX"
  shows "in_int v"
  using assms by (auto simp: in_int_def INT_MIN_def INT_MAX_def)

lemma gcdExtended_step:
  assumes "0 < a" "0 \<le> b" "b \<le> INT_MAX"
    and rec: "gcdExtended (b mod a) a = Inr (g, x1, y1)"
    and prod: "\<bar>(b div a) * x1\<bar> \<le> INT_MAX"
    and diff: "\<bar>y1 - (b div a) * x1\<bar> \<le> INT_MAX"
  shows "gcdExtended a b = Inr (g, y1 - (b div a) * x1, x1)"
proof -
  have "int_mod b a = Inr (b mod a)" "int_div b a = Inr (b div a)"
    using assms by (simp_all add: int_div_mod_nonneg)
  moreover have "int_mul (b div a) x1 = Inr ((b div a) * x1)"
    using prod by (simp add: int_mul_def int_mul_sub_small)
  moreover have "int_sub y1 ((b div a) * x1) = Inr (y1 - (b div a) * x1)"
    using diff by (simp add: int_sub_def int_mul_sub_small)
  ultimately show ?thesis
    using \<open>0 < a\<close> rec by (subst gcdExtended.simps) simp
qed

lemma gcdExtended_bezout:
  "0 \<le> a \<Longrightarrow> a \<le> INT_MAX \<Longrightarrow> 0 \<le> b \<Longrightarrow> b \<le> INT_MAX \<Longrightarrow>
   \<exists>g x y. gcdExtended a b = Inr (g, x, y) \<and> g = gcd a b \<and> a * x + b * y = g
     \<and> \<bar>x\<bar> \<le> max 1 b \<and> \<bar>y\<bar> \<le> max 1 a"
proof (induction a b rule: gcdExtended.induct)
  case (1 a b)
  show ?case
  proof (cases "a = 0")
    case True
    with "1.prems" show ?thesis
      by (subst gcdExtended.simps) simp
  next
    case False
    with "1.prems" have "0 < a" by simp
    define r where "r = b mod a"
    define q where "q = b div a"
    have r_range: "0 \<le> r" "r < a"
      using \<open>0 < a\<close> by (simp_all add: r_def)
    have mod_eq: "int_mod b a = Inr r"
      using "1.prems" \<open>0 < a\<close> by (simp add: int_div_mod_nonneg r_def)
    have b_eq: "b = q * a + r"
      by (simp add: q_def r_def)
    have q_range: "0 \<le> q" "q * a \<le> b"
    proof -
      show "0 \<le> q"
        using "1.prems" \<open>0 < a\<close> by (simp add: q_def pos_imp_zdiv_nonneg_iff)
      show "q * a \<le> b"
        using r_range b_eq by linarith
    qed
    from "1.IH" [OF False mod_eq] r_range "1.prems"
    obtain g x1 y1 where rec: "gcdExtended r a = Inr (g, x1, y1)"
      and g: "g = gcd r a" and bez: "r * x1 + a * y1 = g"
      and bx: "\<bar>x1\<bar> \<le> max 1 a" and "by": "\<bar>y1\<bar> \<le> max 1 r"
      by auto
    have bx': "\<bar>x1\<bar> \<le> a"
      using bx \<open>0 < a\<close> by simp
    have prod_le: "\<bar>q * x1\<bar> \<le> q * a"
      using q_range bx' by (simp add: abs_mult mult_left_mono)
    have diff_le: "\<bar>y1 - q * x1\<bar> \<le> max 1 b"
    proof (cases "r = 0")
      case True
      then have "gcdExtended r a = Inr (a, 0, 1)"
        by (subst gcdExtended.simps) simp
      with rec have "x1 = 0" "y1 = 1" by simp_all
      then show ?thesis by simp
    next
      case False
      with r_range "by" have "\<bar>y1\<bar> \<le> r" by simp
      then have "\<bar>y1 - q * x1\<bar> \<le> r + q * a"
        using prod_le by linarith
      then show ?thesis using b_eq by simp
    qed
    have step: "gcdExtended a b = Inr (g, y1 - q * x1, x1)"
      unfolding q_def
    proof (rule gcdExtended_step)
      show "gcdExtended (b mod a) a = Inr (g, x1, y1)"
        using rec by (simp add: r_def)
      show "\<bar>b div a * x1\<bar> \<le> INT_MAX"
        using prod_le q_range "1.prems" by (simp add: q_def)
      show "\<bar>y1 - b div a * x1\<bar> \<le> INT_MAX"
        using diff_le "1.prems" by (simp add: q_def INT_MAX_def)
    qed (use \<open>0 < a\<close> "1.prems" in simp_all)
    have "g = gcd a b"
      using g gcd_red_int [of b a] by (simp add: r_def gcd.commute)
    moreover have "a * (y1 - q * x1) + b * x1 = g"
      using bez by (simp add: b_eq algebra_simps)
    ultimately show ?thesis
      using step diff_le bx by auto
  qed
qed

lemma power_loop_from_one:
  assumes "0 \<le> base" "0 < m" "m \<le> INT_MAX"
  shows "power_loop 1 (base mod m) expo m = Inr (if 0 < expo then base ^ nat expo mod m else 1)"
proof -
  have "power_loop 1 (base mod m) expo m =
      Inr (if 0 < expo then 1 * (base mod m) ^ nat expo mod m else 1)"
    by (rule power_loop_exact) (use assms in simp_all)
  then show ?thesis
    by (simp add: power_mod)
qed

lemma power_value:
  assumes "0 \<le> base" "base \<le> INT_MAX" "0 < m" "m \<le> INT_MAX"
  shows "power base expo m = Inr (if 0 < expo then base ^ nat expo mod m else 1)"
proof -
  have "int_mod base m = Inr (base mod m)"
    using assms by (simp add: int_div_mod_nonneg)
  moreover have "base ^ nat expo mod m < m"
    using assms by simp
  then have "base ^ nat expo mod m \<le> INT_MAX"
    using assms by linarith
  moreover have "0 \<le> base ^ nat expo mod m"
    using assms by simp
  ultimately show ?thesis
    using assms by (simp add: power_def power_loop_from_one narrow_int_small INT_MAX_def)
qed

section \<open>Primes and Fermat's little theorem\<close>

lemma is_prime_divisor:
  assumes "is_prime p" "d dvd p" "0 < d"
  shows "d = 1 \<or> d = p"
proof (rule ccontr)
  assume neg: "\<not> (d = 1 \<or> d = p)"
  have "0 < p" using assms(1) by (simp add: is_prime_def)
  then have "d \<le> p" using assms(2) by (simp add: zdvd_imp_le)
  with neg assms(3) have "d \<in> {2 ..< p}" by auto
  with assms(1,2) show False by (auto simp: is_prime_def)
qed

lemma is_prime_coprime:
  assumes "is_prime p" "\<not> p dvd a"
  shows "coprime p a"
proof (rule coprimeI)
  fix c assume c: "c dvd p" "c dvd a"
  have "p \<noteq> 0" using assms(1) by (simp add: is_prime_def)
  with c have "c \<noteq> 0" by auto
  then have "0 < \<bar>c\<bar>" by simp
  moreover have "\<bar>c\<bar> dvd p" using c by simp
  ultimately have "\<bar>c\<bar> = 1 \<or> \<bar>c\<bar> = p"
    using is_prime_divisor [OF assms(1), of "\<bar>c\<bar>"] by blast
  moreover have "\<bar>c\<bar> \<noteq> p"
  proof
    assume "\<bar>c\<bar> = p"
    then have "p dvd c" by (metis abs_dvd_iff dvd_refl)
    with c(2) have "p dvd a" by (blast intro: dvd_trans)
    with assms(2) show False by contradiction
  qed
  ultimately show "is_unit c" by simp
qed

lemma is_prime_dvd_mult:
  assumes "is_prime p" "p dvd a * b"
  shows "p dvd a \<or> p dvd b"
proof (cases "p dvd a")
  case False
  with assms(1) have "coprime p a" by (rule is_prime_coprime)
  with assms(2) show ?thesis by (simp add: coprime_dvd_mult_right_iff)
qed simp

lemma is_prime_dvd_choose:
  assumes "is_prime p" "0 < k" "k < nat p"
  shows "p dvd int (nat p choose k)"
proof -
  have p: "0 < p" using assms(1) by (simp add: is_prime_def)
  have "k * (nat p choose k) = nat p * ((nat p - 1) choose (k - 1))"
    using assms(2) by (rule times_binomial_minus1_eq)
  then have "int k * int (nat p choose k) = int (nat p) * int ((nat p - 1) choose (k - 1))"
    by (metis of_nat_mult)
  then have "p dvd int k * int (nat p choose k)"
    using p by simp
  moreover have "\<not> p dvd int k"
    using assms(2,3) by (auto dest!: zdvd_imp_le)
  ultimately show ?thesis
    using is_prime_dvd_mult [OF assms(1)] by blast
qed

lemma prime_power_succ:
  assumes "is_prime p"
  shows "p dvd (a + 1) ^ nat p - a ^ nat p - 1"
proof -
  define P where "P = nat p"
  have "1 < p" using assms by (simp add: is_prime_def)
  then have P: "2 \<le> P" by (simp add: P_def)
  then obtain Q where Q: "P = Suc Q" "0 < Q"
    by (cases P) auto
  have "(a + 1) ^ P = (\<Sum>k\<le>P. of_nat (P choose k) * a ^ k)"
    using binomial_ring [of a 1 P] by simp
  also have "\<dots> = (\<Sum>k\<le>Q. of_nat (P choose k) * a ^ k) + a ^ P"
    by (simp add: Q)
  also have "(\<Sum>k\<le>Q. of_nat (P choose k) * a ^ k)
      = 1 + (\<Sum>k\<in>{1..Q}. of_nat (P choose k) * a ^ k)"
    by (simp add: sum.atMost_shift sum.atLeast_Suc_atMost atMost_atLeast0 del: sum.lessThan_Suc)
  finally have "(a + 1) ^ P - a ^ P - 1 = (\<Sum>k\<in>{1..Q}. of_nat (P choose k) * a ^ k)"
    by simp
  moreover have "p dvd (\<Sum>k\<in>{1..Q}. of_nat (P choose k) * a ^ k)"
  proof (rule dvd_sum)
    fix k assume "k \<in> {1..Q}"
    then have "0 < k" "k < nat p" using Q by (simp_all add: P_def)
    with assms have "p dvd int (nat p choose k)" by (rule is_prime_dvd_choose)
    then show "p dvd of_nat (P choose k) * a ^ k"
      by (simp add: P_def)
  qed
  ultimately show ?thesis by (simp add: P_def)
qed

lemma fermat_little_nonneg:
  assumes "is_prime p" "0 \<le> a"
  shows "p dvd a ^ nat p - a"
  using assms(2)
proof (induction a rule: int_ge_induct)
  case base
  have "0 < p" using assms(1) by (simp add: is_prime_def)
  then have "0 < nat p" by simp
  then have z: "(0::int) ^ nat p = 0" by (rule zero_power)
  show ?case by (simp only: z diff_self dvd_0_right)
next
  case (step a)
  have "(a + 1) ^ nat p - (a + 1) = ((a + 1) ^ nat p - a ^ nat p - 1) + (a ^ nat p - a)"
    by simp
  with step.IH prime_power_succ [OF assms(1), of a] show ?case
    by (simp only: dvd_add)
qed

lemma fermat_little_unit:
  assumes "is_prime p" "0 \<le> a" "\<not> p dvd a"
  shows "a ^ (nat p - 1) mod p = 1"
proof -
  have p: "1 < p" using assms(1) by (simp add: is_prime_def)
  then obtain Q where Q: "nat p = Suc Q" by (cases "nat p") auto
  have "p dvd a ^ nat p - a" using assms(1,2) by (rule fermat_little_nonneg)
  also have "a ^ nat p - a = a * (a ^ Q - 1)"
    by (simp add: Q algebra_simps)
  finally have "p dvd a ^ Q - 1"
    using is_prime_dvd_mult [OF assms(1)] assms(3) by blast
  then have "(a ^ Q - 1) mod p = 0" by simp
  then have "a ^ Q mod p = 1 mod p"
    by (metis diff_add_cancel mod_add_left_eq add_0)
  with p Q show ?thesis by simp
qed

lemma fermat_exponent:
  assumes "is_prime p" "0 \<le> m"
  shows "p dvd m ^ (1 + k * (nat p - 1)) - m"
proof (cases "p dvd m")
  case True
  then have "p dvd m ^ (1 + k * (nat p - 1))" by simp
  then show ?thesis using True by (rule dvd_diff)
next
  case False
  with assms have "m ^ (nat p - 1) mod p = 1" by (rule fermat_little_unit)
  then have "(m ^ (nat p - 1)) ^ k mod p = 1 ^ k mod p"
    by (metis power_mod)
  then have "m ^ ((nat p - 1) * k) mod p = 1 mod p"
    by (simp add: power_mult)
  then have "m ^ (k * (nat p - 1)) mod p = 1 mod p"
    by (simp add: mult.commute)
  then have "m * m ^ (k * (nat p - 1)) mod p = m * 1 mod p"
    by (metis mod_mult_right_eq)
  then have "m ^ (1 + k * (nat p - 1)) mod p = m mod p"
    by simp
  then show ?thesis
    by (simp add: mod_eq_dvd_iff)
qed

lemma distinct_primes_coprime:
  assumes "is_prime p" "is_prime q" "p \<noteq> q"
  shows "coprime p q"
proof (rule is_prime_coprime [OF assms(1)])
  show "\<not> p dvd q"
  proof
    assume "p dvd q"
    moreover have "0 < p" "p \<noteq> 1" using assms(1) by (simp_all add: is_prime_def)
    ultimately show False
      using is_prime_divisor [OF assms(2), of p] assms(3) by auto
  qed
qed

lemma rsa_exponent:
  assumes "is_prime p" "is_prime q" "p \<noteq> q" "0 \<le> m" "0 < E"
    and E: "E mod ((p - 1) * (q - 1)) = 1"
  shows "p * q dvd m ^ nat E - m"
proof -
  have p: "1 < p" and q: "1 < q"
    using assms(1,2) by (simp_all add: is_prime_def)
  define K where "K = E div ((p - 1) * (q - 1))"
  have E_eq: "E = 1 + K * ((p - 1) * (q - 1))"
    using E div_mult_mod_eq [of E "(p - 1) * (q - 1)"] by (simp add: K_def)
  have "0 < (p - 1) * (q - 1)" using p q by simp
  then have K: "0 \<le> K"
    using \<open>0 < E\<close> by (simp add: K_def pos_imp_zdiv_nonneg_iff)
  have "nat E = 1 + nat K * nat (p - 1) * nat (q - 1)"
    using K p q by (subst E_eq) (simp add: nat_add_distrib nat_mult_distrib)
  then have Ep: "nat E = 1 + (nat K * nat (q - 1)) * (nat p - 1)"
    and Eq: "nat E = 1 + (nat K * nat (p - 1)) * (nat q - 1)"
    using p q by (simp_all add: nat_diff_distrib mult_ac)
  have "p dvd m ^ nat E - m"
    unfolding Ep using assms(1,4) by (rule fermat_exponent)
  moreover have "q dvd m ^ nat E - m"
    unfolding Eq using assms(2,4) by (rule fermat_exponent)
  moreover have "coprime p q"
    using assms(1,2,3) by (rule distinct_primes_coprime)
  ultimately show ?thesis
    by (rule divides_mult)
qed

lemma rsa_totient_gt_one:
  assumes "is_prime p" "is_prime q" "p \<noteq> q"
  shows "1 < (p - 1) * (q - 1)"
proof -
  have p: "2 \<le> p" and q: "2 \<le> q"
    using assms(1,2) by (simp_all add: is_prime_def)
  with assms(3) consider "3 \<le> p" | "3 \<le> q" by linarith
  then show ?thesis
  proof cases
    case 1
    then have "2 * 1 \<le> (p - 1) * (q - 1)"
      using q by (intro mult_mono) auto
    then show ?thesis by simp
  next
    case 2
    then have "1 * 2 \<le> (p - 1) * (q - 1)"
      using p by (intro mult_mono) auto
    then show ?thesis by simp
  qed
qed

section \<open>The scan of modInverse\<close>

lemma modInverse_loop_scan:
  "0 < e \<Longrightarrow> 0 < t \<Longrightarrow> e * (t - 1) \<le> INT_MAX \<Longrightarrow> 0 \<le> d \<Longrightarrow>
   \<exists>r. modInverse_loop e t d = Inr r \<and>
     ((d \<le> r \<and> r < t \<and> e * r mod t = 1 \<and> (\<forall>d'. d \<le> d' \<and> d' < r \<longrightarrow> e * d' mod t \<noteq> 1))
      \<or> (r = - 1 \<and> (\<forall>d'. d \<le> d' \<and> d' < t \<longrightarrow> e * d' mod t \<noteq> 1)))"
proof (induction e t d rule: modInverse_loop.induct)
  case (1 e t d)
  show ?case
  proof (cases "d < t")
    case False
    then have "modInverse_loop e t d = Inr (- 1)"
      by (subst modInverse_loop.simps) simp
    with False show ?thesis by auto
  next
    case True
    have "e * d \<le> e * (t - 1)"
      using True "1.prems" by (intro mult_left_mono) auto
    then have hi: "e * d \<le> INT_MAX"
      using "1.prems" by linarith
    have lo: "0 \<le> e * d"
      using "1.prems" by simp
    have mul: "int_mul e d = Inr (e * d)"
      using hi lo by (simp add: int_mul_def in_int_def INT_MIN_def)
    have md: "int_mod (e * d) t = Inr (e * d mod t)"
      using lo hi "1.prems" by (simp add: int_div_mod_nonneg)
    show ?thesis
    proof (cases "e * d mod t = 1")
      case True
      then have "modInverse_loop e t d = Inr d"
        using \<open>d < t\<close> mul md by (subst modInverse_loop.simps) simp
      with True \<open>d < t\<close> show ?thesis by auto
    next
      case False
      then have unfold: "modInverse_loop e t d = modInverse_loop e t (d + 1)"
        using \<open>d < t\<close> mul md by (subst modInverse_loop.simps) simp
      from "1.IH" [OF \<open>d < t\<close> mul md False] "1.prems"
      obtain r where r: "modInverse_loop e t (d + 1) = Inr r"
        and alt: "(d + 1 \<le> r \<and> r < t \<and> e * r mod t = 1
                    \<and> (\<forall>d'. d + 1 \<le> d' \<and> d' < r \<longrightarrow> e * d' mod t \<noteq> 1))
           \<or> (r = - 1 \<and> (\<forall>d'. d + 1 \<le> d' \<and> d' < t \<longrightarrow> e * d' mod t \<noteq> 1))"
        by auto
      have ext: "(\<forall>d'. d + 1 \<le> d' \<and> d' < u \<longrightarrow> e * d' mod t \<noteq> 1)
          \<Longrightarrow> (\<forall>d'. d \<le> d' \<and> d' < u \<longrightarrow> e * d' mod t \<noteq> 1)" for u
      proof (intro allI impI)
        fix d' assume h: "\<forall>d'. d + 1 \<le> d' \<and> d' < u \<longrightarrow> e * d' mod t \<noteq> 1" "d \<le> d' \<and> d' < u"
        show "e * d' mod t \<noteq> 1"
        proof (cases "d' = d")
          case True with False show ?thesis by simp
        next
          case False with h show ?thesis by auto
        qed
      qed
      from alt ext show ?thesis
        unfolding unfold r by auto
    qed
  qed
qed

lemma modInverse_scan:
  assumes "0 < e" "1 < t" "e * (t - 1) \<le> INT_MAX"
  shows "\<exists>r. modInverse e t = Inr r \<and>
     ((2 \<le> r \<and> r < t \<and> e * r mod t = 1 \<and> (\<forall>d'. 2 \<le> d' \<and> d' < r \<longrightarrow> e * d' mod t \<noteq> 1))
      \<or> (r = - 1 \<and> (\<forall>d'. 2 \<le> d' \<and> d' < t \<longrightarrow> e * d' mod t \<noteq> 1)))"
  unfolding modInverse_def using assms modInverse_loop_scan [of e t 2] by simp

lemma inverse_implies_coprime:
  assumes "e * r mod t = (1::int)"
  shows "gcd e t = 1"
proof -
  have "gcd e t dvd e * r" by simp
  moreover have "gcd e t dvd t" by simp
  ultimately have "gcd e t dvd e * r mod t" by (rule dvd_mod)
  with assms have "gcd e t dvd 1" by simp
  then show ?thesis by simp
qed

lemma inverse_of_one_residue:
  assumes "e mod t = (1::int)" "e * r mod t = 1" "0 \<le> r" "r < t"
  shows "r = 1"
proof -
  have "e * r mod t = (e mod t) * r mod t"
    by (simp add: mod_mult_left_eq)
  with assms show ?thesis by simp
qed

lemma coprime_has_inverse:
  assumes "1 < t" "gcd e t = (1::int)" "e mod t \<noteq> 1"
  shows "\<exists>d. 2 \<le> d \<and> d < t \<and> e * d mod t = 1"
proof -
  obtain u v where "u * e + v * t = gcd e t"
    using bezout_int [of e t] by blast
  then have uv: "u * e + v * t = 1"
    by (simp only: assms(2))
  define d where "d = u mod t"
  have range: "0 \<le> d" "d < t"
    using assms(1) by (simp_all add: d_def)
  have "e * u = (u * e + v * t) - v * t"
    by (simp add: mult.commute)
  then have eu: "e * u = 1 - v * t"
    by (simp only: uv)
  have "e * d mod t = e * u mod t"
    by (simp add: d_def mod_mult_right_eq)
  also have "\<dots> = (1 - v * t) mod t"
    by (simp only: eu)
  also have "\<dots> = (1 - v * t mod t) mod t"
    by (simp only: mod_diff_right_eq)
  also have "\<dots> = 1"
    using assms(1) by simp
  finally have inv: "e * d mod t = 1" .
  have "d \<noteq> 0"
  proof
    assume "d = 0"
    with inv show False by simp
  qed
  moreover have "d \<noteq> 1"
  proof
    assume "d = 1"
    with inv have "e mod t = 1" by simp
    with assms(3) show False by contradiction
  qed
  ultimately have "2 \<le> d"
    using range by linarith
  with range inv show ?thesis
    by blast
qed

section \<open>Modular exponentiation\<close>

text \<open>
  C10. \<open>power\<close> is exact on machine integers: for a base \<open>\<ge> 0\<close>, an exponent \<open>\<ge> 1\<close> and
  a modulus \<open>1 \<le> m \<le> 2^31 - 1\<close> no product of the loop leaves the \<open>long long\<close> range
  (the call does not fault), the value \<open>res\<close> the loop ends with lies in \<open>[0, m)\<close>, so
  that the conversion to \<open>int\<close> at the return changes nothing, and the result is
  \<open>base ^ expo mod m\<close>.
\<close>

theorem power_machine_exact:
  assumes "0 \<le> base" "base \<le> INT_MAX" "1 \<le> expo" "1 \<le> m" "m \<le> INT_MAX"
  shows "\<exists>res. power_loop 1 (base smod m) expo m = Inr res \<and> 0 \<le> res \<and> res < m
           \<and> narrow_int res = res
           \<and> power base expo m = Inr res \<and> res = base ^ nat expo mod m"
proof -
  let ?res = "base ^ nat expo mod m"
  have "power_loop 1 (base smod m) expo m = Inr ?res"
    using assms by (simp add: smod_nonneg_eq power_loop_from_one)
  moreover have range: "0 \<le> ?res" "?res < m"
    using assms by simp_all
  moreover have "narrow_int ?res = ?res"
    using range assms by (intro narrow_int_small) linarith+
  moreover have "power base expo m = Inr ?res"
    using assms by (simp add: power_value)
  ultimately show ?thesis
    by blast
qed

theorem power_machine_exact_witness:
  "(0::int) \<le> 51010 \<and> 51010 \<le> INT_MAX \<and> (1::int) \<le> 3 \<and> (1::int) \<le> 1032247
     \<and> 1032247 \<le> INT_MAX \<and> power 51010 3 1032247 = Inr 908920"
  using power_machine_exact [of 51010 3 1032247] by (simp add: INT_MAX_def)

text \<open>
  C8. The edge cases of \<open>power\<close>: with exponent 0 the loop is not entered and the
  initial \<open>res = 1\<close> is returned as it is, also for the modulus 1, where \<open>1 mod 1\<close> and
  \<open>base ^ 0 mod 1\<close> are 0.
\<close>

theorem power_exponent_zero_modulus_one:
  "power 5 0 1 = Inr 1 \<and> (1::int) mod 1 = 0 \<and> (5::int) ^ 0 mod 1 = 0"
proof -
  have "power 5 0 1 = Inr 1"
    by code_simp
  then show ?thesis
    by simp
qed

section \<open>Extended Euclid\<close>

text \<open>
  C7. For \<open>a, b > 0\<close> (of type \<open>int\<close>) \<open>gcdExtended\<close> returns \<open>g = gcd a b\<close> with
  coefficients \<open>x\<close>, \<open>y\<close> such that \<open>a * x + b * y = g\<close>; the base case \<open>a = 0\<close> yields
  \<open>(b, 0, 1)\<close>, and otherwise the result comes from the call on \<open>(b mod a, a)\<close> by
  \<open>x = y1 - (b / a) * x1\<close>, \<open>y = x1\<close>.
\<close>

theorem gcdExtended_bezout_gcd:
  assumes "0 < a" "a \<le> INT_MAX" "0 < b" "b \<le> INT_MAX"
  shows "\<exists>g x y x1 y1. gcdExtended a b = Inr (g, x, y) \<and> a * x + b * y = g \<and> g = gcd a b
           \<and> gcdExtended 0 b = Inr (b, 0, 1)
           \<and> gcdExtended (b mod a) a = Inr (g, x1, y1)
           \<and> x = y1 - (b div a) * x1 \<and> y = x1"
proof -
  have "b mod a < a"
    using assms by simp
  then have "b mod a \<le> INT_MAX"
    using assms by linarith
  moreover have "0 \<le> b mod a"
    using assms by simp
  ultimately obtain g x1 y1 where rec: "gcdExtended (b mod a) a = Inr (g, x1, y1)"
    using assms gcdExtended_bezout [of "b mod a" a] by auto
  from assms obtain g' x y where res: "gcdExtended a b = Inr (g', x, y)"
    and bez: "a * x + b * y = g'" "g' = gcd a b"
    using gcdExtended_bezout [of a b] by auto
  have "int_mod b a = Inr (b mod a)" "int_div b a = Inr (b div a)"
    using assms by (simp_all add: int_div_mod_nonneg)
  with res rec assms(1) have "g' = g \<and> x = y1 - (b div a) * x1 \<and> y = x1"
    by (subst (asm) gcdExtended.simps)
       (auto simp: int_mul_def int_sub_def split: if_splits)
  moreover have "gcdExtended 0 b = Inr (b, 0, 1)"
    by (subst gcdExtended.simps) simp
  ultimately show ?thesis
    using res rec bez by blast
qed

theorem gcdExtended_bezout_gcd_witness:
  "(0::int) < 35 \<and> 35 \<le> INT_MAX \<and> (0::int) < 15 \<and> 15 \<le> INT_MAX
     \<and> gcdExtended 35 15 = Inr (5, 1, - 2)"
proof -
  have "gcdExtended 35 15 = Inr (5, 1, - 2)"
    by code_simp
  then show ?thesis
    using gcdExtended_bezout_gcd [of 35 15] by (simp add: INT_MAX_def)
qed

section \<open>Modular inverse and the RSA round trip\<close>

text \<open>
  C9, as stated, fails: \<open>modInverse\<close> scans \<open>d = 2, 3, ...\<close>, so for \<open>e = 1\<close> and the
  modulus 8 the inverse 1 is never tried and \<open>- 1\<close> is returned although
  \<open>gcd 1 8 = 1\<close>. For \<open>e = - 1\<close> the remainder \<open>(e * d) % 8\<close> of C is never positive, and
  \<open>- 1\<close> is returned although \<open>7\<close> is an inverse; for \<open>e = 1073741827\<close> the product
  \<open>e * 2\<close> leaves the range of \<open>int\<close>.
\<close>

theorem modInverse_counterexample:
  "gcd (1::int) 8 = 1 \<and> modInverse 1 8 = Inr (- 1)
     \<and> gcd (- 1::int) 8 = 1 \<and> modInverse (- 1) 8 = Inr (- 1)
     \<and> gcd (1073741827::int) 8 = 1 \<and> in_int 1073741827
     \<and> modInverse 1073741827 8 = Inl SignedOverflow"
proof -
  have "modInverse 1 8 = Inr (- 1)"
    by code_simp
  moreover have "modInverse (- 1) 8 = Inr (- 1)"
    by code_simp
  moreover have "modInverse 1073741827 8 = Inl SignedOverflow"
    by code_simp
  moreover have "gcd (1073741827::int) 8 = 1"
    by code_simp
  moreover have "in_int 1073741827"
    by code_simp
  ultimately show ?thesis
    by simp
qed

text \<open>
  C9, amended. For \<open>e > 0\<close> and a modulus \<open>> 1\<close> with \<open>e * (modulus - 1)\<close> in the range of
  \<open>int\<close> (the product \<open>e * d\<close> is an \<open>int\<close>), \<open>modInverse\<close> returns either \<open>d\<close> with
  \<open>1 < d < modulus\<close> and \<open>e * d mod modulus = 1\<close>, or \<open>- 1\<close>; and it returns \<open>- 1\<close>
  exactly when \<open>gcd e modulus \<noteq> 1\<close> or \<open>e mod modulus = 1\<close>.
\<close>

theorem modInverse_contract:
  assumes "0 < e" "1 < modulus" "e * (modulus - 1) \<le> INT_MAX"
  shows "\<exists>r. modInverse e modulus = Inr r
           \<and> ((1 < r \<and> r < modulus \<and> e * r mod modulus = 1) \<or> r = - 1)
           \<and> (r = - 1 \<longleftrightarrow> gcd e modulus \<noteq> 1 \<or> e mod modulus = 1)"
proof -
  obtain r where r: "modInverse e modulus = Inr r"
    and alt: "(2 \<le> r \<and> r < modulus \<and> e * r mod modulus = 1
                \<and> (\<forall>d'. 2 \<le> d' \<and> d' < r \<longrightarrow> e * d' mod modulus \<noteq> 1))
       \<or> (r = - 1 \<and> (\<forall>d'. 2 \<le> d' \<and> d' < modulus \<longrightarrow> e * d' mod modulus \<noteq> 1))"
    using modInverse_scan [OF assms] by blast
  have shape: "(1 < r \<and> r < modulus \<and> e * r mod modulus = 1) \<or> r = - 1"
  proof -
    from alt consider "2 \<le> r \<and> r < modulus \<and> e * r mod modulus = 1" | "r = - 1"
      by blast
    then show ?thesis
    proof cases
      case 1
      then have "1 < r" by linarith
      with 1 show ?thesis by blast
    next
      case 2
      then show ?thesis by blast
    qed
  qed
  have failure: "r = - 1 \<longleftrightarrow> gcd e modulus \<noteq> 1 \<or> e mod modulus = 1"
  proof
    assume "r = - 1"
    then have "\<not> 2 \<le> r"
      by simp
    with alt have none: "\<forall>d'. 2 \<le> d' \<and> d' < modulus \<longrightarrow> e * d' mod modulus \<noteq> 1"
      by blast
    show "gcd e modulus \<noteq> 1 \<or> e mod modulus = 1"
    proof (rule ccontr)
      assume neg: "\<not> (gcd e modulus \<noteq> 1 \<or> e mod modulus = 1)"
      then have "gcd e modulus = 1" and "e mod modulus \<noteq> 1"
        by blast+
      with assms(2) have "\<exists>d. 2 \<le> d \<and> d < modulus \<and> e * d mod modulus = 1"
        by (rule coprime_has_inverse)
      with none show False
        by blast
    qed
  next
    assume rhs: "gcd e modulus \<noteq> 1 \<or> e mod modulus = 1"
    show "r = - 1"
    proof (rule ccontr)
      assume "r \<noteq> - 1"
      with alt have found: "2 \<le> r" "r < modulus" "e * r mod modulus = 1"
        by blast+
      from found(3) have "gcd e modulus = 1"
        by (rule inverse_implies_coprime)
      with rhs have one: "e mod modulus = 1"
        by blast
      from found(1) have "0 \<le> r"
        by linarith
      with one found(3) have "r = 1"
        using found(2) by (rule inverse_of_one_residue)
      with found(1) show False
        by linarith
    qed
  qed
  show ?thesis
  proof (intro exI [of _ r] conjI)
    show "modInverse e modulus = Inr r"
      by (fact r)
    show "(1 < r \<and> r < modulus \<and> e * r mod modulus = 1) \<or> r = - 1"
      by (fact shape)
    show "r = - 1 \<longleftrightarrow> gcd e modulus \<noteq> 1 \<or> e mod modulus = 1"
      by (fact failure)
  qed
qed

theorem modInverse_contract_witness:
  "(0::int) < 3 \<and> (1::int) < 8 \<and> 3 * (8 - 1) \<le> INT_MAX
     \<and> modInverse 3 8 = Inr 3 \<and> gcd (3::int) 8 = 1 \<and> (3::int) mod 8 \<noteq> 1"
proof -
  have "modInverse 3 8 = Inr 3"
    by code_simp
  moreover have "gcd (3::int) 8 = 1"
    by code_simp
  ultimately show ?thesis
    using modInverse_contract [of 3 8] by (simp add: INT_MAX_def)
qed

text \<open>
  C1, as stated, fails: \<open>e = 1\<close> is coprime to the totient 8 of \<open>n = 3 * 5\<close>, the scan
  of \<open>modInverse\<close> from 2 finds no inverse and returns \<open>- 1\<close>, and \<open>power\<close> with the
  exponent \<open>- 1\<close> returns 1: the message 2 comes back as 1. The same happens for
  \<open>e = - 1\<close>, where also the encryption is 1; and for \<open>e = 1073741827\<close>, coprime to 8,
  the product \<open>e * 2\<close> in \<open>modInverse\<close> leaves the range of \<open>int\<close>.
\<close>

theorem rsa_round_trip_counterexample:
  "is_prime 3 \<and> is_prime 5 \<and> gcd (1::int) ((3 - 1) * (5 - 1)) = 1
     \<and> encrypt 2 1 (3 * 5) = Inr 2 \<and> modInverse 1 ((3 - 1) * (5 - 1)) = Inr (- 1)
     \<and> decrypt 2 (- 1) (3 * 5) = Inr 1
     \<and> gcd (- 1::int) ((3 - 1) * (5 - 1)) = 1
     \<and> encrypt 2 (- 1) (3 * 5) = Inr 1 \<and> modInverse (- 1) ((3 - 1) * (5 - 1)) = Inr (- 1)
     \<and> decrypt 1 (- 1) (3 * 5) = Inr 1
     \<and> gcd (1073741827::int) ((3 - 1) * (5 - 1)) = 1
     \<and> modInverse 1073741827 ((3 - 1) * (5 - 1)) = Inl SignedOverflow"
proof -
  have "is_prime 3" "is_prime 5"
    by code_simp+
  moreover have "gcd (1::int) ((3 - 1) * (5 - 1)) = 1" "gcd (- 1::int) ((3 - 1) * (5 - 1)) = 1"
    by simp_all
  moreover have "gcd (1073741827::int) ((3 - 1) * (5 - 1)) = 1"
    by code_simp
  moreover have "encrypt 2 1 (3 * 5) = Inr 2"
    by code_simp
  moreover have "modInverse 1 ((3 - 1) * (5 - 1)) = Inr (- 1)"
    by code_simp
  moreover have "decrypt 2 (- 1) (3 * 5) = Inr 1"
    by code_simp
  moreover have "encrypt 2 (- 1) (3 * 5) = Inr 1"
    by code_simp
  moreover have "modInverse (- 1) ((3 - 1) * (5 - 1)) = Inr (- 1)"
    by code_simp
  moreover have "decrypt 1 (- 1) (3 * 5) = Inr 1"
    by code_simp
  moreover have "modInverse 1073741827 ((3 - 1) * (5 - 1)) = Inl SignedOverflow"
    by code_simp
  ultimately show ?thesis
    by (intro conjI)
qed

text \<open>
  C1, amended. For distinct primes \<open>p\<close>, \<open>q\<close> with \<open>n = p * q\<close> in the range of \<open>int\<close>,
  \<open>totient = (p - 1) * (q - 1)\<close>, every \<open>e > 0\<close> coprime to the totient with
  \<open>e mod totient \<noteq> 1\<close> and \<open>e * (totient - 1)\<close> in the range of \<open>int\<close>, and every message
  \<open>0 \<le> m < n\<close>: \<open>modInverse\<close> returns a \<open>d\<close> with \<open>e * d mod totient = 1\<close>, and
  decrypting the encryption of \<open>m\<close> with it returns \<open>m\<close>.
\<close>

theorem rsa_round_trip:
  assumes "is_prime p" "is_prime q" "p \<noteq> q"
    and n: "n = p * q" "n \<le> INT_MAX"
    and t: "totient = (p - 1) * (q - 1)"
    and e: "0 < e" "gcd e totient = 1" "e mod totient \<noteq> 1" "e * (totient - 1) \<le> INT_MAX"
    and m: "0 \<le> m" "m < n"
  shows "\<exists>c d. power m e n = Inr c \<and> modInverse e totient = Inr d
           \<and> e * d mod totient = 1 \<and> power c d n = Inr m
           \<and> encrypt m e n = Inr c \<and> decrypt c d n = Inr m"
proof -
  have tot: "1 < totient"
    unfolding t using assms(1,2,3) by (rule rsa_totient_gt_one)
  obtain d0 where d0: "2 \<le> d0" "d0 < totient" "e * d0 mod totient = 1"
    using coprime_has_inverse [OF tot e(2,3)] by blast
  obtain d where d: "modInverse e totient = Inr d"
    and alt: "(2 \<le> d \<and> d < totient \<and> e * d mod totient = 1
                \<and> (\<forall>d'. 2 \<le> d' \<and> d' < d \<longrightarrow> e * d' mod totient \<noteq> 1))
       \<or> (d = - 1 \<and> (\<forall>d'. 2 \<le> d' \<and> d' < totient \<longrightarrow> e * d' mod totient \<noteq> 1))"
    using modInverse_scan [OF e(1) tot e(4)] by blast
  from alt d0 have dr: "2 \<le> d" "d < totient" "e * d mod totient = 1"
    by auto
  have npos: "0 < n"
    using m by simp
  define c where "c = m ^ nat e mod n"
  have c_range: "0 \<le> c" "c < n"
    using npos by (simp_all add: c_def)
  have enc: "encrypt m e n = Inr c"
    unfolding encrypt_def c_def using power_value [of m n e] m n e(1) npos by simp
  have "decrypt c d n = Inr (c ^ nat d mod n)"
    unfolding decrypt_def using power_value [of c n d] c_range n dr(1) npos by simp
  also have "c ^ nat d mod n = m ^ (nat e * nat d) mod n"
    by (simp add: c_def power_mod power_mult)
  also have "nat e * nat d = nat (e * d)"
    using e(1) dr(1) by (simp add: nat_mult_distrib)
  also have "m ^ nat (e * d) mod n = m mod n"
  proof -
    have "0 < e * d" using e(1) dr(1) by simp
    then have "p * q dvd m ^ nat (e * d) - m"
      using assms(1,2,3) m(1) dr(3) unfolding t by (intro rsa_exponent) auto
    then show ?thesis
      by (simp add: mod_eq_dvd_iff n)
  qed
  also have "m mod n = m"
    using m by simp
  finally have dec: "decrypt c d n = Inr m" .
  show ?thesis
  proof (rule exI [of _ c], rule exI [of _ d], intro conjI)
    show "power m e n = Inr c"
      using enc by (simp add: encrypt_def)
    show "modInverse e totient = Inr d"
      by (fact d)
    show "e * d mod totient = 1"
      by (fact dr(3))
    show "power c d n = Inr m"
      using dec by (simp add: decrypt_def)
    show "encrypt m e n = Inr c"
      by (fact enc)
    show "decrypt c d n = Inr m"
      by (fact dec)
  qed
qed

theorem rsa_round_trip_witness:
  "is_prime 1013 \<and> is_prime 1019 \<and> (1013::int) \<noteq> 1019
     \<and> (1032247::int) = 1013 * 1019 \<and> 1032247 \<le> INT_MAX
     \<and> (1030216::int) = (1013 - 1) * (1019 - 1)
     \<and> (0::int) < 3 \<and> gcd (3::int) 1030216 = 1 \<and> (3::int) mod 1030216 \<noteq> 1
     \<and> 3 * (1030216 - 1) \<le> INT_MAX \<and> (0::int) \<le> 51010 \<and> (51010::int) < 1032247
     \<and> (\<exists>c d. encrypt 51010 3 1032247 = Inr c \<and> modInverse 3 1030216 = Inr d
            \<and> decrypt c d 1032247 = Inr 51010)"
proof -
  have primes: "is_prime 1013" "is_prime 1019"
    by code_simp+
  have coprime: "gcd (3::int) 1030216 = 1"
    by code_simp
  have "\<exists>c d. power 51010 3 1032247 = Inr c \<and> modInverse 3 1030216 = Inr d
      \<and> 3 * d mod 1030216 = 1 \<and> power c d 1032247 = Inr 51010
      \<and> encrypt 51010 3 1032247 = Inr c \<and> decrypt c d 1032247 = Inr 51010"
    by (rule rsa_round_trip [of 1013 1019 1032247 1030216 3 51010])
       (use primes coprime in \<open>simp_all add: INT_MAX_def\<close>)
  with primes coprime show ?thesis
    by (simp add: INT_MAX_def) blast
qed

section \<open>Diffie-Hellman exchange\<close>

lemma mpz_powm_nonneg:
  assumes "0 < m"
  shows "mpz_powm b (int x) m = Some (b ^ x mod m)"
  using assms by (simp add: mpz_powm_def)

text \<open>
  C2. For every prime \<open>P\<close>, every \<open>alpha\<close> and all private exponents \<open>XA\<close>, \<open>XB\<close>
  the exchange computes \<open>YA = alpha ^ XA mod P\<close>, \<open>YB = alpha ^ XB mod P\<close>,
  \<open>SA = YB ^ XA mod P\<close> and \<open>SB = YA ^ XB mod P\<close>, and the two shared keys are equal.
\<close>

theorem dh_shared_secret_agreement:
  assumes "is_prime P"
  shows "\<exists>k. dh_exchange P alpha XA XB = Some k
           \<and> YA k = alpha ^ XA mod P \<and> YB k = alpha ^ XB mod P
           \<and> SA k = YB k ^ XA mod P \<and> SB k = YA k ^ XB mod P
           \<and> SA k = SB k"
proof -
  have P: "0 < P"
    using assms by (simp add: is_prime_def)
  have "(alpha ^ XB mod P) ^ XA mod P = alpha ^ (XB * XA) mod P"
    by (simp add: power_mod power_mult)
  also have "\<dots> = alpha ^ (XA * XB) mod P"
    by (simp add: mult.commute)
  also have "\<dots> = (alpha ^ XA mod P) ^ XB mod P"
    by (simp add: power_mod power_mult)
  finally have agree: "(alpha ^ XB mod P) ^ XA mod P = (alpha ^ XA mod P) ^ XB mod P" .
  have "dh_exchange P alpha XA XB =
      Some \<lparr>YA = alpha ^ XA mod P, YB = alpha ^ XB mod P,
            SA = (alpha ^ XB mod P) ^ XA mod P, SB = (alpha ^ XA mod P) ^ XB mod P\<rparr>"
    using P by (simp add: dh_exchange_def mpz_powm_nonneg)
  with agree show ?thesis
    by simp
qed

theorem dh_shared_secret_agreement_witness:
  "is_prime 23 \<and> dh_exchange 23 5 6 15 = Some \<lparr>YA = 8, YB = 19, SA = 2, SB = 2\<rparr>"
proof -
  have p: "is_prime 23"
    by code_simp
  have "dh_exchange 23 5 6 15 = Some \<lparr>YA = 8, YB = 19, SA = 2, SB = 2\<rparr>"
    using dh_shared_secret_agreement [OF p, of 5 6 15] by auto
  with p show ?thesis
    by simp
qed

section \<open>The two generator tests\<close>


lemma strategies_agree_23:
  "\<forall>start \<in> set [2 ..< 23].
     find_generator_safe_prime 23 11 start = find_generator 23 [2, 11] start
     \<and> find_generator 23 [2, 11] start \<noteq> None"
  by code_simp

text \<open>
  C5. For the safe prime \<open>P = 23 = 2 * 11 + 1\<close> and every start candidate from 2 to 22
  the search with \<open>is_generator_safe_prime\<close> returns the generator that the search
  with \<open>is_generator\<close> returns on the factors \<open>[2, 11]\<close>, which are the factors that
  \<open>factor_distinct\<close> finds for \<open>P - 1\<close>.
\<close>

theorem strategy_equivalence_23:
  assumes "2 \<le> start" "start \<le> 22"
  shows "factor_distinct (23 - 1) = Some [2, 11]
           \<and> find_generator_safe_prime 23 11 start = find_generator 23 [2, 11] start
           \<and> (\<exists>g. find_generator 23 [2, 11] start = Some g)"
proof -
  have "factor_distinct (23 - 1) = Some [2, 11]"
    by code_simp
  moreover from assms have "start \<in> {2 ..< 23}"
    by simp
  then have "start \<in> set [2 ..< 23]"
    by (simp only: set_upt)
  with strategies_agree_23
  have "find_generator_safe_prime 23 11 start = find_generator 23 [2, 11] start
      \<and> find_generator 23 [2, 11] start \<noteq> None"
    by blast
  ultimately show ?thesis
    by blast
qed

theorem strategy_equivalence_23_witness:
  "(2::nat) \<le> 8 \<and> (8::nat) \<le> 22 \<and> find_generator_safe_prime 23 11 8 = Some 10
     \<and> find_generator 23 [2, 11] 8 = Some 10"
proof -
  have range: "(2::nat) \<le> 8" "(8::nat) \<le> 22"
    by simp_all
  have generic: "find_generator 23 [2, 11] 8 = Some 10"
    by code_simp
  from strategy_equivalence_23 [OF range]
  have "find_generator_safe_prime 23 11 8 = find_generator 23 [2, 11] 8"
    by (elim conjE)
  with generic range show ?thesis
    by (simp only: simp_thms)
qed

section \<open>The generator search\<close>











section \<open>Trial division\<close>












end
